theory Spec2Isabelle
  imports Main "HOL-Library.Word"
begin

unbundle bit_operations_syntax

section \<open>The contiguous frame pool of \<open>cont_frame_pool.C\<close>\<close>

text \<open>
  The development embeds \<open>MP2_Sources/cont_frame_pool.C\<close>. Scalars follow the
  source's C types under the widths the specification gives: \<open>unsigned long\<close> is a
  64-bit word, \<open>unsigned int\<close> a 32-bit word and \<open>unsigned char\<close> an 8-bit word,
  so that every unsigned addition and subtraction wraps as the machine's does. The
  \<open>int\<close> loop counters (\<open>fno\<close>, \<open>hos_candidate\<close>, \<open>free_frames\<close>, \<open>i\<close>) are
  natural numbers: they start at a non-negative value and only grow, and on a pool
  the constructor built they stay within \<open>nframes\<close>, which its assertion keeps at
  most \<open>FRAME_SIZE * 4\<close>, far inside the range of \<open>int\<close>. Where the source
  converts such a counter to an unsigned type the model writes \<open>of_nat\<close>.
\<close>

type_synonym u8 = "8 word"
type_synonym u32 = "32 word"
type_synonym u64 = "64 word"

subsection \<open>Data\<close>

text \<open>The enum \<open>ContFramePool::FrameState\<close>.\<close>

datatype FrameState = Free | Used | HoS

text \<open>The one way the code stops: the assertion primitive of \<open>assert.H\<close>.\<close>

datatype error = AssertionFailed

text \<open>
  The members of a \<open>ContFramePool\<close> object. The member \<open>bitmap\<close> is a pointer to
  \<open>unsigned char\<close> in the source; the record carries the bytes it points to, by
  offset from the pointer, with no bound (the source indexes raw memory). Each pool
  is taken to have storage of its own.
\<close>

record pool =
  base_frame_no :: u64
  nframes :: u64
  nFreeFrames :: u64
  info_frame_no :: u64
  bitmap :: "nat \<Rightarrow> u8"

text \<open>
  The static members \<open>frame_pools\<close> and \<open>n_frame_pools\<close> (lines 132-133): the list
  holds the objects that \<open>frame_pools[0]\<close> .. \<open>frame_pools[n_frame_pools - 1]\<close>
  point to, in order, and \<open>n_frame_pools\<close> is its length. The table is declared
  with 100 slots. The table holds pointers to the pool objects themselves, so a
  method call on a registered pool replaces the pool's element of the list.
\<close>

record registry =
  frame_pools :: "pool list"

definition n_frame_pools :: "registry \<Rightarrow> nat" where
  "n_frame_pools r = length (frame_pools r)"

definition frame_pools_capacity :: nat where
  "frame_pools_capacity = 100"

text \<open>
  Modelled from the spec: the constant \<open>FRAME_SIZE\<close> comes from a header that is
  not part of the sources; the specification gives 4096 bytes per frame.
\<close>

definition FRAME_SIZE :: nat where
  "FRAME_SIZE = 4096"

subsection \<open>The bitmap codec (lines 137-178)\<close>

text \<open>
  The first four statements of \<open>get_state\<close> and \<open>set_state\<close>. The byte index is an
  \<open>unsigned int\<close>, so the quotient is truncated to 32 bits. The mask \<open>0x3 << shift\<close>
  is computed on \<open>int\<close> and stored in an \<open>unsigned char\<close>; the shift is at most 6,
  so the 8-bit shift is the same value.
\<close>

definition bitmap_index :: "u64 \<Rightarrow> u32" where
  "bitmap_index frame_no = ucast (frame_no div 4)"

definition shift_of :: "u64 \<Rightarrow> u32" where
  "shift_of frame_no = ucast ((frame_no mod 4) * 2)"

definition mask_of :: "u64 \<Rightarrow> u8" where
  "mask_of frame_no = push_bit (unat (shift_of frame_no)) 3"

text \<open>The local \<open>state\<close> of \<open>get_state\<close>: the two bits of the slot, unshifted.\<close>

definition state_bits :: "pool \<Rightarrow> u64 \<Rightarrow> u8" where
  "state_bits p frame_no =
     drop_bit (unat (shift_of frame_no))
       (bitmap p (unat (bitmap_index frame_no)) AND mask_of frame_no)"

text \<open>The \<open>switch\<close> of \<open>get_state\<close>, with its \<open>default\<close> branch.\<close>

definition decode_state :: "u8 \<Rightarrow> FrameState" where
  "decode_state state =
     (if state = 0 then Free
      else if state = 1 then Used
      else if state = 2 then HoS
      else Free)"

definition get_state :: "pool \<Rightarrow> u64 \<Rightarrow> FrameState" where
  "get_state p frame_no = decode_state (state_bits p frame_no)"

text \<open>The constant each branch of the \<open>switch\<close> of \<open>set_state\<close> shifts into place.\<close>

fun state_code :: "FrameState \<Rightarrow> u8" where
  "state_code Free = 0"
| "state_code Used = 1"
| "state_code HoS = 2"

definition set_state :: "pool \<Rightarrow> u64 \<Rightarrow> FrameState \<Rightarrow> pool" where
  "set_state p frame_no st =
     (let idx = unat (bitmap_index frame_no);
          cleared = bitmap p idx AND NOT (mask_of frame_no);
          byte = cleared OR push_bit (unat (shift_of frame_no)) (state_code st)
      in p\<lparr>bitmap := (bitmap p)(idx := byte)\<rparr>)"

subsection \<open>Construction (lines 180-215)\<close>

text \<open>
  The constructor takes the registry and the bytes found at the bitmap's address
  (\<open>base_frame_no * FRAME_SIZE\<close> or \<open>info_frame_no * FRAME_SIZE\<close>) before the
  call. It fails only through its assertion. The new object is stored at
  \<open>frame_pools[n_frame_pools]\<close> and the count is incremented: the list grows by one
  element at its end. The source compares nothing with the table's size.
\<close>

definition ContFramePool :: "registry \<Rightarrow> (nat \<Rightarrow> u8) \<Rightarrow> u64 \<Rightarrow> u64 \<Rightarrow> u64 \<Rightarrow> error + registry" where
  "ContFramePool r mem base n info =
     (if \<not> unat n \<le> FRAME_SIZE * 4 then Inl AssertionFailed
      else
        let p0 = \<lparr>base_frame_no = base, nframes = n, nFreeFrames = n,
                  info_frame_no = info, bitmap = mem\<rparr>;
            p1 = fold (\<lambda>fno q. set_state q (of_nat fno) Free) [0..<unat n] p0;
            p2 = (if info = 0
                  then (set_state p1 0 Used)\<lparr>nFreeFrames := nFreeFrames p1 - 1\<rparr>
                  else p1)
        in Inr (r\<lparr>frame_pools := frame_pools r @ [p2]\<rparr>))"

subsection \<open>\<open>get_frames\<close> (lines 217-244)\<close>

text \<open>
  The commit of lines 228-234. The bound \<open>hos_candidate + _n_frames\<close> of the inner
  loop is an \<open>unsigned int\<close> sum; \<open>nFreeFrames -= _n_frames\<close> and the returned sum
  are \<open>unsigned long\<close> arithmetic.
\<close>

definition get_frames_commit :: "pool \<Rightarrow> u32 \<Rightarrow> nat \<Rightarrow> u64 \<times> pool" where
  "get_frames_commit p n hos_candidate =
     (let p1 = set_state p (of_nat hos_candidate) HoS;
          p2 = fold (\<lambda>i q. set_state q (of_nat i) Used)
                 [hos_candidate + 1 ..< unat ((of_nat hos_candidate :: u32) + n)] p1
      in (base_frame_no p + of_nat hos_candidate,
          p2\<lparr>nFreeFrames := nFreeFrames p2 - ucast n\<rparr>))"

text \<open>
  The scanning loop, with the loop variables \<open>fno\<close>, \<open>hos_candidate\<close> and
  \<open>free_frames\<close> as arguments. The test \<open>free_frames == _n_frames\<close> compares an
  \<open>int\<close> with an \<open>unsigned int\<close>, so the counter is converted to 32 bits.
\<close>

function get_frames_loop :: "pool \<Rightarrow> u32 \<Rightarrow> nat \<Rightarrow> nat \<Rightarrow> nat \<Rightarrow> u64 \<times> pool" where
  "get_frames_loop p n fno hos_candidate free_frames =
     (if fno < unat (nframes p) then
        (if get_state p (of_nat fno) = Free then
           (if (of_nat (free_frames + 1) :: u32) = n
            then get_frames_commit p n hos_candidate
            else get_frames_loop p n (fno + 1) hos_candidate (free_frames + 1))
         else get_frames_loop p n (fno + 1) (fno + 1) 0)
      else (0, p))"
  by pat_completeness auto
termination
  by (relation "measure (\<lambda>(p, n, fno, h, f). unat (nframes p) - fno)") auto

declare get_frames_loop.simps [simp del]

definition get_frames :: "pool \<Rightarrow> u32 \<Rightarrow> u64 \<times> pool" where
  "get_frames p n = get_frames_loop p n 0 0 0"

subsection \<open>\<open>mark_inaccessible\<close> (lines 246-254)\<close>

text \<open>
  The offsets \<open>_base_frame_no - base_frame_no + 1\<close> and
  \<open>_base_frame_no - base_frame_no + _n_frames\<close> are \<open>unsigned long\<close> arithmetic; the
  counter \<open>i\<close> runs from the first to the second, which is what the \<open>int\<close> does
  for a range inside a pool. The function assigns nothing to \<open>nFreeFrames\<close>.
\<close>

definition mark_inaccessible :: "pool \<Rightarrow> u64 \<Rightarrow> u64 \<Rightarrow> pool" where
  "mark_inaccessible p base n =
     (let d = base - base_frame_no p;
          p1 = set_state p d HoS
      in fold (\<lambda>i q. set_state q (of_nat i) Used) [unat (d + 1) ..< unat (d + n)] p1)"

subsection \<open>\<open>release_frames\<close> (lines 256-282)\<close>

text \<open>The test of line 262.\<close>

definition owns :: "pool \<Rightarrow> u64 \<Rightarrow> bool" where
  "owns p first \<longleftrightarrow>
     base_frame_no p \<le> first \<and> first < base_frame_no p + nframes p"

text \<open>
  The search of lines 259-267: the index of the first pool of the table that owns
  the frame, counting from \<open>i\<close>; \<open>None\<close> is the \<open>nullptr\<close>.
\<close>

fun find_pool :: "pool list \<Rightarrow> u64 \<Rightarrow> nat \<Rightarrow> nat option" where
  "find_pool [] first i = None"
| "find_pool (p # ps) first i =
     (if owns p first then Some i else find_pool ps first (i + 1))"

text \<open>The \<open>while\<close> loop of lines 277-281, on the \<open>unsigned long frame_ind\<close>.\<close>

function release_loop :: "pool \<Rightarrow> u64 \<Rightarrow> pool" where
  "release_loop p frame_ind =
     (if frame_ind < nframes p \<and> get_state p frame_ind = Used
      then release_loop (set_state p frame_ind Free) (frame_ind + 1)
      else p)"
  by pat_completeness auto
termination
proof (relation "measure (\<lambda>(p, i). unat (nframes p) - unat i)")
  show "wf (measure (\<lambda>(p, i). unat (nframes p) - unat i))"
    by simp
next
  fix p :: pool and frame_ind :: u64
  assume a: "frame_ind < nframes p \<and> get_state p frame_ind = Used"
  then have lt: "unat frame_ind < unat (nframes p)"
    by (simp add: word_less_nat_alt)
  have "unat (nframes p) < 2 ^ LENGTH(64)"
    by (rule unsigned_less)
  with lt have "unat frame_ind + unat (1 :: u64) < 2 ^ LENGTH(64)"
    by simp
  then have "unat (frame_ind + 1) = unat frame_ind + unat (1 :: u64)"
    by (simp only: unat_add_lem)
  with lt show
    "((set_state p frame_ind Free, frame_ind + 1), (p, frame_ind))
       \<in> measure (\<lambda>(p, i). unat (nframes p) - unat i)"
    by (simp add: set_state_def Let_def)
qed

declare release_loop.simps [simp del]

text \<open>Lines 273-281, on the pool the search found.\<close>

definition release_pool :: "pool \<Rightarrow> u64 \<Rightarrow> error + pool" where
  "release_pool p first =
     (let frame_ind = first - base_frame_no p
      in if get_state p frame_ind \<noteq> HoS then Inl AssertionFailed
         else Inr (release_loop (set_state p frame_ind Free) (frame_ind + 1)))"

definition release_frames :: "registry \<Rightarrow> u64 \<Rightarrow> error + registry" where
  "release_frames r first =
     (case find_pool (frame_pools r) first 0 of
        None \<Rightarrow> Inr r
      | Some k \<Rightarrow>
          (case release_pool (frame_pools r ! k) first of
             Inl e \<Rightarrow> Inl e
           | Inr p' \<Rightarrow> Inr (r\<lparr>frame_pools := (frame_pools r)[k := p']\<rparr>)))"

text \<open>The number of slots of a pool that \<open>get_state\<close> reads as \<open>Free\<close>.\<close>

definition count_free :: "pool \<Rightarrow> nat" where
  "count_free p =
     length (filter (\<lambda>k. get_state p (of_nat k) = Free) [0..<unat (nframes p)])"

text \<open>
  Spec vocabulary: a run of \<open>m\<close> contiguous \<open>Free\<close> frames starting at index \<open>c\<close>
  and lying inside the pool.
\<close>

definition free_run :: "pool \<Rightarrow> nat \<Rightarrow> nat \<Rightarrow> bool" where
  "free_run p c m \<longleftrightarrow>
     c + m \<le> unat (nframes p) \<and>
     list_all (\<lambda>k. get_state p (of_nat k) = Free) [c..<c + m]"

text \<open>
  The pool of the specification's concrete scenarios (\<open>base = 100\<close>, 16 frames,
  bitmap in frame 99), as the constructor leaves it over zeroed storage.
\<close>

definition scenario_pool :: pool where
  "scenario_pool =
     \<lparr>base_frame_no = 100, nframes = 16, nFreeFrames = 16, info_frame_no = 99,
      bitmap = (\<lambda>_. 0)\<rparr>"

section \<open>The codec\<close>

lemma unat_shift_of: "unat (shift_of i) = 2 * (unat i mod 4)"
proof -
  have "unat ((i mod 4) * 2) = 2 * (unat i mod 4)"
    by (simp add: unat_word_ariths unat_mod)
  then show ?thesis
    unfolding shift_of_def by (simp add: unsigned_ucast_eq take_bit_eq_mod)
qed

lemma unat_bitmap_index: "unat (bitmap_index i) = (unat i div 4) mod 2 ^ 32"
  unfolding bitmap_index_def
  by (simp add: unsigned_ucast_eq unat_div take_bit_eq_mod)

lemma bit3_int: "bit (3::int) n \<longleftrightarrow> n < 2"
proof -
  have eq: "(3::int) = mask 2" by (simp add: mask_eq_exp_minus_1)
  show ?thesis by (simp only: eq bit_mask_iff) simp
qed

lemma bit2_int: "bit (2::int) n \<longleftrightarrow> n = 1"
proof -
  have eq: "(2::int) = 2 ^ 1" by simp
  show ?thesis by (subst eq, simp only: bit_exp_iff) auto
qed

lemma bit_state_code:
  "bit (state_code st) n \<longleftrightarrow> (st = Used \<and> n = 0) \<or> (st = HoS \<and> n = 1)"
  by (cases st) (auto simp: bit2_int bit_1_iff)

lemma bit_slot_read:
  fixes b :: u8
  shows "sh \<le> 6 \<Longrightarrow> bit (drop_bit sh (b AND push_bit sh 3)) n \<longleftrightarrow> n < 2 \<and> bit b (sh + n)"
  by (auto simp: bit_simps bit3_int)

lemma bit_slot_write:
  fixes b :: u8
  shows "bit ((b AND NOT (push_bit sh 3)) OR push_bit sh (state_code st)) m \<longleftrightarrow>
     m < 8 \<and> (if sh \<le> m \<and> m < sh + 2 then bit (state_code st) (m - sh) else bit b m)"
  by (auto simp: bit_simps bit3_int bit_state_code dest: bit_imp_le_length)

lemma slot_read_write_same:
  fixes b :: u8
  assumes "sh \<le> 6"
  shows "drop_bit sh (((b AND NOT (push_bit sh 3)) OR push_bit sh (state_code st)) AND push_bit sh 3)
           = state_code st"
proof (rule bit_word_eqI)
  fix n assume "n < LENGTH(8)"
  show "bit (drop_bit sh (((b AND NOT (push_bit sh 3)) OR push_bit sh (state_code st)) AND push_bit sh 3)) n
          = bit (state_code st) n"
    using assms by (auto simp only: bit_slot_read bit_slot_write bit_state_code split: if_splits)
qed

lemma slot_read_write_other:
  fixes b :: u8
  assumes "sh \<le> 6" "sh' \<le> 6" "even sh" "even sh'" "sh \<noteq> sh'"
  shows "drop_bit sh' (((b AND NOT (push_bit sh 3)) OR push_bit sh (state_code st)) AND push_bit sh' 3)
           = drop_bit sh' (b AND push_bit sh' 3)"
proof (rule bit_word_eqI)
  fix n assume "n < LENGTH(8)"
  have *: "n < 2 \<Longrightarrow> \<not> (sh \<le> sh' + n \<and> sh' + n < sh + 2)"
    using assms(3-5) by (auto elim!: evenE) 
  show "bit (drop_bit sh' (((b AND NOT (push_bit sh 3)) OR push_bit sh (state_code st)) AND push_bit sh' 3)) n
          = bit (drop_bit sh' (b AND push_bit sh' 3)) n"
    using assms(1,2) * by (auto simp only: bit_slot_read bit_slot_write dest: bit_imp_le_length split: if_splits)
qed

lemma bitmap_set_state:
  "bitmap (set_state p i st) =
     (bitmap p)(unat (bitmap_index i) :=
        (bitmap p (unat (bitmap_index i)) AND NOT (push_bit (unat (shift_of i)) 3))
          OR push_bit (unat (shift_of i)) (state_code st))"
  by (simp add: set_state_def Let_def mask_of_def)

lemma state_bits_set_state:
  "state_bits (set_state p i st) j =
     (if bitmap_index j = bitmap_index i \<and> shift_of j = shift_of i
      then state_code st else state_bits p j)"
proof -
  have le: "unat (shift_of i) \<le> 6" "unat (shift_of j) \<le> 6"
    and ev: "even (unat (shift_of i))" "even (unat (shift_of j))"
    by (simp_all add: unat_shift_of)
  show ?thesis
  proof (cases "bitmap_index j = bitmap_index i")
    case False
    then have "unat (bitmap_index j) \<noteq> unat (bitmap_index i)"
      by (simp add: word_unat_eq_iff)
    then show ?thesis using False
      by (simp add: state_bits_def bitmap_set_state)
  next
    case True
    show ?thesis
    proof (cases "shift_of j = shift_of i")
      case same: True
      show ?thesis
        unfolding state_bits_def mask_of_def bitmap_set_state True same
        by (simp only: fun_upd_same slot_read_write_same [OF le(1)] simp_thms if_True)
    next
      case False
      then have ne: "unat (shift_of i) \<noteq> unat (shift_of j)"
        by (simp add: word_unat_eq_iff)
      show ?thesis
        unfolding state_bits_def mask_of_def bitmap_set_state True
        by (simp only: fun_upd_same slot_read_write_other [OF le ev ne] False simp_thms if_False)
    qed
  qed
qed

lemma decode_state_code: "decode_state (state_code st) = st"
  by (cases st) (simp_all add: decode_state_def)

lemma get_state_set_state:
  "get_state (set_state p i st) j =
     (if bitmap_index j = bitmap_index i \<and> shift_of j = shift_of i
      then st else get_state p j)"
  by (simp add: get_state_def state_bits_set_state decode_state_code)

lemma same_slot_iff:
  assumes "unat i < 2 ^ 34" "unat j < 2 ^ 34"
  shows "bitmap_index j = bitmap_index i \<and> shift_of j = shift_of i \<longleftrightarrow> j = i"
proof
  assume a: "bitmap_index j = bitmap_index i \<and> shift_of j = shift_of i"
  from assms have "unat i div 4 < 2 ^ 32" "unat j div 4 < 2 ^ 32" by simp_all
  then have "unat (bitmap_index i) = unat i div 4" "unat (bitmap_index j) = unat j div 4"
    by (simp_all add: unat_bitmap_index)
  with a have d: "unat i div 4 = unat j div 4" by simp
  from a have "unat (shift_of j) = unat (shift_of i)" by simp
  then have m: "unat i mod 4 = unat j mod 4" by (simp add: unat_shift_of)
  have "unat i = 4 * (unat i div 4) + unat i mod 4" by simp
  also have "\<dots> = 4 * (unat j div 4) + unat j mod 4" using d m by simp
  also have "\<dots> = unat j" by simp
  finally show "j = i" by (simp add: word_unat_eq_iff)
qed simp

section \<open>Writes through \<open>set_state\<close> and the scan of \<open>get_frames\<close>\<close>

lemma set_state_fields [simp]:
  "nframes (set_state p i st) = nframes p"
  "base_frame_no (set_state p i st) = base_frame_no p"
  "nFreeFrames (set_state p i st) = nFreeFrames p"
  "info_frame_no (set_state p i st) = info_frame_no p"
  by (simp_all add: set_state_def Let_def)

lemma unat_of_nat_u64: "k < 2 ^ 34 \<Longrightarrow> unat (of_nat k :: u64) = k"
  by (simp add: unat_of_nat)

lemma get_state_set_state_nat:
  assumes "i < 2 ^ 34" "j < 2 ^ 34"
  shows "get_state (set_state p (of_nat i) st) (of_nat j) =
           (if j = i then st else get_state p (of_nat j))"
proof -
  have "unat (of_nat i :: u64) < 2 ^ 34" "unat (of_nat j :: u64) < 2 ^ 34"
    using assms by (simp_all add: unat_of_nat_u64)
  then have "bitmap_index (of_nat j) = bitmap_index (of_nat i) \<and>
             shift_of (of_nat j) = shift_of (of_nat i) \<longleftrightarrow> (of_nat j :: u64) = of_nat i"
    by (rule same_slot_iff)
  moreover have "(of_nat j :: u64) = of_nat i \<longleftrightarrow> j = i"
    using assms by (metis unat_of_nat_u64)
  ultimately show ?thesis
    by (simp only: get_state_set_state)
qed

lemma fold_set_state_fields [simp]:
  "nframes (fold (\<lambda>i q. set_state q (of_nat i) st) ks p) = nframes p"
  "base_frame_no (fold (\<lambda>i q. set_state q (of_nat i) st) ks p) = base_frame_no p"
  "nFreeFrames (fold (\<lambda>i q. set_state q (of_nat i) st) ks p) = nFreeFrames p"
  "info_frame_no (fold (\<lambda>i q. set_state q (of_nat i) st) ks p) = info_frame_no p"
  by (induction ks arbitrary: p; simp)+

lemma get_state_fold_set_state:
  assumes "\<forall>k \<in> set ks. k < 2 ^ 34" "j < 2 ^ 34"
  shows "get_state (fold (\<lambda>i q. set_state q (of_nat i) st) ks p) (of_nat j) =
           (if j \<in> set ks then st else get_state p (of_nat j))"
  using assms
proof (induction ks arbitrary: p)
  case Nil
  then show ?case by simp
next
  case (Cons k ks)
  then show ?case
    by (simp add: get_state_set_state_nat)
qed

lemma free_run_iff:
  "free_run p c m \<longleftrightarrow>
     c + m \<le> unat (nframes p) \<and> (\<forall>k. c \<le> k \<and> k < c + m \<longrightarrow> get_state p (of_nat k) = Free)"
  by (auto simp: free_run_def list_all_iff)

lemma of_nat_u32_eq_iff:
  assumes "k < 2 ^ 32"
  shows "(of_nat k :: u32) = n \<longleftrightarrow> k = unat n"
proof
  assume "(of_nat k :: u32) = n"
  then have "unat (of_nat k :: u32) = unat n" by simp
  with assms show "k = unat n" by (simp add: unat_of_nat)
next
  assume "k = unat n"
  then show "(of_nat k :: u32) = n" by simp
qed

lemma get_frames_loop_scan:
  assumes "unat (nframes p) < 2 ^ 32"
    and "fno \<le> unat (nframes p)" "hos + ff = fno" "ff < unat n"
    and "\<forall>k. hos \<le> k \<and> k < fno \<longrightarrow> get_state p (of_nat k) = Free"
    and "\<forall>c<hos. \<not> free_run p c (unat n)"
  shows "(\<exists>c. free_run p c (unat n) \<and> (\<forall>c'<c. \<not> free_run p c' (unat n)) \<and>
              get_frames_loop p n fno hos ff = get_frames_commit p n c)
         \<or> ((\<forall>c. \<not> free_run p c (unat n)) \<and> get_frames_loop p n fno hos ff = (0, p))"
  using assms
proof (induction p n fno hos ff rule: get_frames_loop.induct)
  case (1 p n fno hos ff)
  let ?N = "unat (nframes p)"
  show ?case
  proof (cases "fno < ?N")
    case False
    with "1.prems" have fN: "fno = ?N" by simp
    have "\<not> free_run p c (unat n)" for c
    proof (cases "c < hos")
      case True
      with "1.prems" show ?thesis by simp
    next
      case False
      with "1.prems" fN have "c + unat n > ?N" by linarith
      then show ?thesis by (simp add: free_run_iff)
    qed
    moreover have "get_frames_loop p n fno hos ff = (0, p)"
      using False by (subst get_frames_loop.simps) simp
    ultimately show ?thesis by blast
  next
    case lt: True
    show ?thesis
    proof (cases "get_state p (of_nat fno) = Free")
      case notfree: False
      have nr: "\<forall>c<fno + 1. \<not> free_run p c (unat n)"
      proof (intro allI impI)
        fix c assume c: "c < fno + 1"
        show "\<not> free_run p c (unat n)"
        proof (cases "c < hos")
          case True
          with "1.prems" show ?thesis by simp
        next
          case False
          with "1.prems" c have "c \<le> fno \<and> fno < c + unat n" by linarith
          with notfree show ?thesis by (auto simp: free_run_iff)
        qed
      qed
      have pos: "0 < unat n" using "1.prems" by linarith
      have step: "get_frames_loop p n fno hos ff = get_frames_loop p n (fno + 1) (fno + 1) 0"
        using lt notfree by (subst get_frames_loop.simps) simp
      have "(\<exists>c. free_run p c (unat n) \<and> (\<forall>c'<c. \<not> free_run p c' (unat n)) \<and>
              get_frames_loop p n (fno + 1) (fno + 1) 0 = get_frames_commit p n c)
         \<or> ((\<forall>c. \<not> free_run p c (unat n)) \<and> get_frames_loop p n (fno + 1) (fno + 1) 0 = (0, p))"
      proof (rule "1.IH"(2) [OF lt notfree "1.prems"(1)])
        show "fno + 1 \<le> ?N" using lt by simp
        show "fno + 1 + 0 = fno + 1" by simp
        show "0 < unat n" by (rule pos)
        show "\<forall>k. fno + 1 \<le> k \<and> k < fno + 1 \<longrightarrow> get_state p (of_nat k) = Free" by linarith
        show "\<forall>c<fno + 1. \<not> free_run p c (unat n)" by (rule nr)
      qed
      with step show ?thesis by simp
    next
      case free: True
      have small: "ff + 1 < 2 ^ 32" using "1.prems" lt by linarith
      show ?thesis
      proof (cases "(of_nat (ff + 1) :: u32) = n")
        case True
        have eq: "ff + 1 = unat n"
          using True of_nat_u32_eq_iff [OF small, of n] by blast
        have "free_run p hos (unat n)"
          unfolding free_run_iff
        proof (intro conjI allI impI)
          show "hos + unat n \<le> ?N"
            using "1.prems"(3) lt eq by linarith
        next
          fix k assume "hos \<le> k \<and> k < hos + unat n"
          with "1.prems"(3) eq have "(hos \<le> k \<and> k < fno) \<or> k = fno" by linarith
          with "1.prems"(5) free show "get_state p (of_nat k) = Free" by blast
        qed
        moreover have "get_frames_loop p n fno hos ff = get_frames_commit p n hos"
          using lt free True by (subst get_frames_loop.simps) simp
        ultimately show ?thesis using "1.prems" by blast
      next
        case False
        have ne: "ff + 1 \<noteq> unat n"
          using False of_nat_u32_eq_iff [OF small, of n] by blast
        have step: "get_frames_loop p n fno hos ff = get_frames_loop p n (fno + 1) hos (ff + 1)"
          using lt free False by (subst get_frames_loop.simps) simp
        have fr: "\<forall>k. hos \<le> k \<and> k < fno + 1 \<longrightarrow> get_state p (of_nat k) = Free"
          using "1.prems" free by (auto simp: less_Suc_eq)
        have "(\<exists>c. free_run p c (unat n) \<and> (\<forall>c'<c. \<not> free_run p c' (unat n)) \<and>
              get_frames_loop p n (fno + 1) hos (ff + 1) = get_frames_commit p n c)
         \<or> ((\<forall>c. \<not> free_run p c (unat n)) \<and> get_frames_loop p n (fno + 1) hos (ff + 1) = (0, p))"
        proof (rule "1.IH"(1) [OF lt free False "1.prems"(1)])
          show "fno + 1 \<le> ?N" using lt by simp
          show "hos + (ff + 1) = fno + 1" using "1.prems"(3) by simp
          show "ff + 1 < unat n" using "1.prems"(4) ne by linarith
          show "\<forall>k. hos \<le> k \<and> k < fno + 1 \<longrightarrow> get_state p (of_nat k) = Free" by (rule fr)
          show "\<forall>c<hos. \<not> free_run p c (unat n)" by (rule "1.prems"(6))
        qed
        with step show ?thesis by simp
      qed
    qed
  qed
qed

lemma get_state_nFreeFrames_update [simp]:
  "get_state (p\<lparr>nFreeFrames := x\<rparr>) j = get_state p j"
  by (simp add: get_state_def state_bits_def)

lemma unat_hos_plus:
  assumes "c + unat n < 2 ^ 32"
  shows "unat ((of_nat c :: u32) + n) = c + unat n"
proof -
  from assms have c: "unat (of_nat c :: u32) = c"
    by (simp add: unat_of_nat)
  with assms have "unat (of_nat c :: u32) + unat n < 2 ^ LENGTH(32)"
    by simp
  then have "unat ((of_nat c :: u32) + n) = unat (of_nat c :: u32) + unat n"
    by (simp only: unat_add_lem)
  with c show ?thesis by simp
qed

lemma get_frames_commit_result:
  assumes "c + unat n \<le> 2 ^ 31"
  shows "fst (get_frames_commit p n c) = base_frame_no p + of_nat c"
    and "nFreeFrames (snd (get_frames_commit p n c)) = nFreeFrames p - ucast n"
    and "nframes (snd (get_frames_commit p n c)) = nframes p"
    and "base_frame_no (snd (get_frames_commit p n c)) = base_frame_no p"
    and "info_frame_no (snd (get_frames_commit p n c)) = info_frame_no p"
    and "j < 2 ^ 34 \<Longrightarrow> get_state (snd (get_frames_commit p n c)) (of_nat j) =
           (if j = c then HoS else if c < j \<and> j < c + unat n then Used
            else get_state p (of_nat j))"
proof -
  show "fst (get_frames_commit p n c) = base_frame_no p + of_nat c"
    "nFreeFrames (snd (get_frames_commit p n c)) = nFreeFrames p - ucast n"
    "nframes (snd (get_frames_commit p n c)) = nframes p"
    "base_frame_no (snd (get_frames_commit p n c)) = base_frame_no p"
    "info_frame_no (snd (get_frames_commit p n c)) = info_frame_no p"
    by (simp_all add: get_frames_commit_def Let_def)
next
  assume j: "j < 2 ^ 34"
  from assms have lim: "unat ((of_nat c :: u32) + n) = c + unat n"
    by (intro unat_hos_plus) simp
  have ks: "\<forall>k \<in> set [c + 1 ..< c + unat n]. k < 2 ^ 34"
    using assms by auto
  have c: "c < 2 ^ 34" using assms by simp
  have "snd (get_frames_commit p n c) =
          (fold (\<lambda>i q. set_state q (of_nat i) Used) [c + 1 ..< c + unat n]
             (set_state p (of_nat c) HoS))
          \<lparr>nFreeFrames := nFreeFrames (fold (\<lambda>i q. set_state q (of_nat i) Used)
             [c + 1 ..< c + unat n] (set_state p (of_nat c) HoS)) - ucast n\<rparr>"
    by (simp only: get_frames_commit_def Let_def lim snd_conv)
  then have "get_state (snd (get_frames_commit p n c)) (of_nat j) =
          get_state (fold (\<lambda>i q. set_state q (of_nat i) Used) [c + 1 ..< c + unat n]
             (set_state p (of_nat c) HoS)) (of_nat j)"
    by (simp only: get_state_nFreeFrames_update)
  also have "\<dots> = (if j \<in> set [c + 1 ..< c + unat n] then Used
                     else get_state (set_state p (of_nat c) HoS) (of_nat j))"
    by (rule get_state_fold_set_state [OF ks j])
  also have "\<dots> = (if j = c then HoS else if c < j \<and> j < c + unat n then Used
            else get_state p (of_nat j))"
    using get_state_set_state_nat [OF c j, of p HoS] by auto
  finally show "get_state (snd (get_frames_commit p n c)) (of_nat j) =
           (if j = c then HoS else if c < j \<and> j < c + unat n then Used
            else get_state p (of_nat j))" .
qed

lemma get_frames_loop_zero:
  assumes "unat (nframes p) < 2 ^ 32" "ff \<le> fno"
  shows "get_frames_loop p 0 fno hos ff = (0, p)"
  using assms
proof (induction p "0 :: u32" fno hos ff rule: get_frames_loop.induct)
  case (1 p fno hos ff)
  show ?case
  proof (cases "fno < unat (nframes p)")
    case False
    then show ?thesis by (subst get_frames_loop.simps) simp
  next
    case True
    with "1.prems" have "ff + 1 < 2 ^ 32" by linarith
    then have ne: "(of_nat (ff + 1) :: u32) \<noteq> 0"
      using of_nat_u32_eq_iff [of "ff + 1" 0] by simp
    show ?thesis
    proof (cases "get_state p (of_nat fno) = Free")
      case free: True
      have "get_frames_loop p 0 (fno + 1) hos (ff + 1) = (0, p)"
        using "1.prems" by (intro "1.hyps"(1) [OF True free ne]) simp_all
      then show ?thesis
        using True free ne by (subst get_frames_loop.simps) simp
    next
      case False
      have "get_frames_loop p 0 (fno + 1) (fno + 1) 0 = (0, p)"
        using "1.prems" by (intro "1.hyps"(2) [OF True False]) simp_all
      then show ?thesis
        using True False by (subst get_frames_loop.simps) simp
    qed
  qed
qed

lemma frame_size_bound: "FRAME_SIZE * 4 = 16384"
  by (simp add: FRAME_SIZE_def)

lemma scenario_pool_fields [simp]:
  "base_frame_no scenario_pool = 100" "nframes scenario_pool = 16"
  "nFreeFrames scenario_pool = 16" "info_frame_no scenario_pool = 99"
  by (simp_all add: scenario_pool_def)

lemma get_state_scenario_pool [simp]: "get_state scenario_pool j = Free"
  by (simp add: scenario_pool_def get_state_def state_bits_def decode_state_def)

lemma free_run_scenario_pool: "free_run scenario_pool c m \<longleftrightarrow> c + m \<le> 16"
  by (simp add: free_run_iff)

lemma get_frames_scenario_pool:
  assumes "n \<noteq> 0" "unat n \<le> 16"
  shows "get_frames scenario_pool n = get_frames_commit scenario_pool n 0"
proof -
  have "(\<exists>c. free_run scenario_pool c (unat n) \<and> (\<forall>c'<c. \<not> free_run scenario_pool c' (unat n)) \<and>
              get_frames_loop scenario_pool n 0 0 0 = get_frames_commit scenario_pool n c)
         \<or> ((\<forall>c. \<not> free_run scenario_pool c (unat n)) \<and>
              get_frames_loop scenario_pool n 0 0 0 = (0, scenario_pool))"
    using assms by (intro get_frames_loop_scan) (simp_all add: unat_gt_0)
  moreover have "free_run scenario_pool 0 (unat n)"
    using assms by (simp add: free_run_scenario_pool)
  ultimately obtain c where c: "\<forall>c'<c. \<not> free_run scenario_pool c' (unat n)"
    "get_frames_loop scenario_pool n 0 0 0 = get_frames_commit scenario_pool n c"
    by blast
  have "c = 0"
  proof (rule ccontr)
    assume "c \<noteq> 0"
    then have "0 < c" by simp
    with c(1) have "\<not> free_run scenario_pool 0 (unat n)" by blast
    then show False using assms by (simp add: free_run_scenario_pool)
  qed
  with c(2) show ?thesis by (simp add: get_frames_def)
qed

section \<open>Construction and forced marking\<close>

lemma ContFramePool_result:
  assumes "unat n \<le> FRAME_SIZE * 4"
  shows "\<exists>p. ContFramePool r mem base n info = Inr (r\<lparr>frame_pools := frame_pools r @ [p]\<rparr>) \<and>
           nframes p = n \<and> base_frame_no p = base \<and> info_frame_no p = info \<and>
           nFreeFrames p = (if info = 0 then n - 1 else n) \<and>
           (\<forall>k<unat n. get_state p (of_nat k) = (if info = 0 \<and> k = 0 then Used else Free))"
proof -
  define p0 where "p0 = \<lparr>base_frame_no = base, nframes = n, nFreeFrames = n,
                  info_frame_no = info, bitmap = mem\<rparr>"
  define p1 where "p1 = fold (\<lambda>fno q. set_state q (of_nat fno) Free) [0..<unat n] p0"
  define p2 where "p2 = (if info = 0
                  then (set_state p1 0 Used)\<lparr>nFreeFrames := nFreeFrames p1 - 1\<rparr>
                  else p1)"
  have N: "unat n \<le> 16384"
    using assms by (simp add: frame_size_bound)
  have res: "ContFramePool r mem base n info = Inr (r\<lparr>frame_pools := frame_pools r @ [p2]\<rparr>)"
    using assms by (simp add: ContFramePool_def Let_def p0_def p1_def p2_def)
  have f1: "nframes p1 = n" "base_frame_no p1 = base" "info_frame_no p1 = info" "nFreeFrames p1 = n"
    by (simp_all add: p1_def p0_def)
  have f2: "nframes p2 = n" "base_frame_no p2 = base" "info_frame_no p2 = info"
    "nFreeFrames p2 = (if info = 0 then n - 1 else n)"
    by (simp_all add: p2_def f1)
  have s1: "get_state p1 (of_nat k) = Free" if "k < unat n" for k
  proof -
    have ks: "\<forall>k \<in> set [0..<unat n]. k < 2 ^ 34" using N by auto
    have k: "k < 2 ^ 34" using that N by simp
    show ?thesis
      unfolding p1_def using that by (simp add: get_state_fold_set_state [OF ks k])
  qed
  have s2: "get_state p2 (of_nat k) = (if info = 0 \<and> k = 0 then Used else Free)"
    if "k < unat n" for k
  proof (cases "info = 0")
    case False
    then show ?thesis using that by (simp add: p2_def s1)
  next
    case True
    have k: "k < 2 ^ 34" using that N by simp
    have "get_state (set_state p1 (of_nat 0) Used) (of_nat k) =
            (if k = 0 then Used else get_state p1 (of_nat k))"
      by (rule get_state_set_state_nat [OF _ k]) simp
    then show ?thesis using True that by (simp add: p2_def s1)
  qed
  from res f2 s2 show ?thesis by blast
qed

lemma ContFramePool_assert:
  "\<not> unat n \<le> FRAME_SIZE * 4 \<Longrightarrow> ContFramePool r mem base n info = Inl AssertionFailed"
  by (simp add: ContFramePool_def)

lemma mark_inaccessible_fields [simp]:
  "nFreeFrames (mark_inaccessible p b n) = nFreeFrames p"
  "nframes (mark_inaccessible p b n) = nframes p"
  "base_frame_no (mark_inaccessible p b n) = base_frame_no p"
  "info_frame_no (mark_inaccessible p b n) = info_frame_no p"
  by (simp_all add: mark_inaccessible_def Let_def)

lemma mark_inaccessible_states:
  assumes "d = unat (b - base_frame_no p)" "d + unat n \<le> 2 ^ 31" "j < 2 ^ 34"
  shows "get_state (mark_inaccessible p b n) (of_nat j) =
           (if j = d then HoS else if d < j \<and> j < d + unat n then Used
            else get_state p (of_nat j))"
proof -
  let ?d = "b - base_frame_no p"
  have d: "unat ?d \<le> 2 ^ 31" using assms by simp
  have one: "unat (?d + 1) = d + 1"
  proof -
    have "unat ?d + unat (1 :: u64) < 2 ^ LENGTH(64)" using d by simp
    then have "unat (?d + 1) = unat ?d + unat (1 :: u64)" by (simp only: unat_add_lem)
    then show ?thesis using assms(1) by simp
  qed
  have lim: "unat (?d + n) = d + unat n"
  proof -
    have "unat ?d + unat n < 2 ^ LENGTH(64)" using assms by simp
    then have "unat (?d + n) = unat ?d + unat n" by (simp only: unat_add_lem)
    then show ?thesis using assms(1) by simp
  qed
  have dd: "(of_nat d :: u64) = ?d" using assms(1) by simp
  have dlt: "d < 2 ^ 34" using assms by simp
  have ks: "\<forall>k \<in> set [d + 1 ..< d + unat n]. k < 2 ^ 34" using assms by auto
  have "mark_inaccessible p b n =
          fold (\<lambda>i q. set_state q (of_nat i) Used) [d + 1 ..< d + unat n]
            (set_state p (of_nat d) HoS)"
    by (simp only: mark_inaccessible_def Let_def one lim dd)
  then have "get_state (mark_inaccessible p b n) (of_nat j) =
          (if j \<in> set [d + 1 ..< d + unat n] then Used
           else get_state (set_state p (of_nat d) HoS) (of_nat j))"
    by (simp only: get_state_fold_set_state [OF ks assms(3)])
  also have "\<dots> = (if j = d then HoS else if d < j \<and> j < d + unat n then Used
            else get_state p (of_nat j))"
    using get_state_set_state_nat [OF dlt assms(3), of p HoS] by auto
  finally show ?thesis .
qed

section \<open>Release\<close>

lemma find_pool_None_iff:
  "find_pool ps first i = None \<longleftrightarrow> (\<forall>p \<in> set ps. \<not> owns p first)"
  by (induction ps arbitrary: i) auto

lemma find_pool_first:
  assumes "k < length ps" "owns (ps ! k) first" "\<forall>m<k. \<not> owns (ps ! m) first"
  shows "find_pool ps first i = Some (i + k)"
  using assms
proof (induction ps arbitrary: k i)
  case Nil
  then show ?case by simp
next
  case (Cons p ps)
  show ?case
  proof (cases k)
    case 0
    with Cons.prems show ?thesis by simp
  next
    case (Suc k')
    with Cons.prems have "\<not> owns p first" by auto
    moreover have "find_pool ps first (i + 1) = Some (i + 1 + k')"
      using Cons.prems Suc by (intro Cons.IH) auto
    ultimately show ?thesis using Suc by simp
  qed
qed

lemma release_loop_step:
  assumes "i < nframes p \<and> get_state p i = Used"
  shows "release_loop p i = release_loop (set_state p i Free) (i + 1)"
  using assms by (subst release_loop.simps) simp

lemma release_loop_stop:
  assumes "\<not> (i < nframes p \<and> get_state p i = Used)"
  shows "release_loop p i = p"
  by (subst release_loop.simps) (simp only: assms if_False)

lemma release_loop_fields [simp]:
  "nFreeFrames (release_loop p i) = nFreeFrames p \<and>
   nframes (release_loop p i) = nframes p \<and>
   base_frame_no (release_loop p i) = base_frame_no p \<and>
   info_frame_no (release_loop p i) = info_frame_no p"
proof (induction p i rule: release_loop.induct)
  case (1 p frame_ind)
  show ?case
  proof (cases "frame_ind < nframes p \<and> get_state p frame_ind = Used")
    case True
    from "1.IH" [OF True] show ?thesis
      by (simp add: release_loop_step [OF True])
  next
    case False
    then show ?thesis
      by (simp add: release_loop_stop)
  qed
qed

lemma release_pool_assert_iff:
  "release_pool p first = Inl AssertionFailed \<longleftrightarrow>
     get_state p (first - base_frame_no p) \<noteq> HoS"
  by (simp add: release_pool_def Let_def)

lemma release_pool_Inr:
  assumes "get_state p (first - base_frame_no p) = HoS"
  shows "release_pool p first =
           Inr (release_loop (set_state p (first - base_frame_no p) Free)
                  (first - base_frame_no p + 1))"
  using assms by (simp add: release_pool_def Let_def)

lemma release_loop_states:
  assumes "unat (nframes p) \<le> 2 ^ 31" "i \<le> e" "e \<le> unat (nframes p)"
    and "\<forall>k. i \<le> k \<and> k < e \<longrightarrow> get_state p (of_nat k) = Used"
    and "e = unat (nframes p) \<or> get_state p (of_nat e) \<noteq> Used"
    and "j < 2 ^ 34"
  shows "get_state (release_loop p (of_nat i)) (of_nat j) =
           (if i \<le> j \<and> j < e then Free else get_state p (of_nat j))"
  using assms
proof (induction "e - i" arbitrary: p i)
  case 0
  then have ie: "i = e" by simp
  have u: "unat (of_nat e :: u64) = e"
    using "0.prems" by (simp add: unat_of_nat)
  have "\<not> ((of_nat e :: u64) < nframes p \<and> get_state p (of_nat e) = Used)"
    using "0.prems"(5) u by (auto simp: word_less_nat_alt)
  then have "release_loop p (of_nat i) = p"
    unfolding ie by (rule release_loop_stop)
  then show ?case using ie by auto
next
  case (Suc d)
  then have lt: "i < e" by simp
  have u: "unat (of_nat i :: u64) = i"
    using Suc.prems lt by (simp add: unat_of_nat)
  have i34: "i < 2 ^ 34" using Suc.prems lt by simp
  have cond: "(of_nat i :: u64) < nframes p \<and> get_state p (of_nat i) = Used"
    using Suc.prems lt u by (auto simp: word_less_nat_alt)
  let ?q = "set_state p (of_nat i) Free"
  have step: "release_loop p (of_nat i) = release_loop ?q (of_nat (i + 1))"
    using release_loop_step [OF cond] by (simp add: add.commute)
  have q: "get_state ?q (of_nat k) = (if k = i then Free else get_state p (of_nat k))"
    if "k < 2 ^ 34" for k
    using get_state_set_state_nat [OF i34 that] .
  have e34: "e < 2 ^ 34" using Suc.prems by simp
  have "get_state (release_loop ?q (of_nat (i + 1))) (of_nat j) =
           (if i + 1 \<le> j \<and> j < e then Free else get_state ?q (of_nat j))"
  proof (rule Suc.hyps(1))
    show "d = e - (i + 1)" using Suc.hyps(2) by simp
    show "unat (nframes ?q) \<le> 2 ^ 31" using Suc.prems(1) by simp
    show "i + 1 \<le> e" using lt by simp
    show "e \<le> unat (nframes ?q)" using Suc.prems(3) by simp
    show "\<forall>k. i + 1 \<le> k \<and> k < e \<longrightarrow> get_state ?q (of_nat k) = Used"
    proof (intro allI impI)
      fix k assume k: "i + 1 \<le> k \<and> k < e"
      then have "k < 2 ^ 34" using e34 by simp
      then show "get_state ?q (of_nat k) = Used"
        using k Suc.prems(4) by (simp add: q)
    qed
    show "e = unat (nframes ?q) \<or> get_state ?q (of_nat e) \<noteq> Used"
      using Suc.prems(5) lt by (simp add: q [OF e34])
    show "j < 2 ^ 34" by (rule Suc.prems(6))
  qed
  with step show ?case
    using q [OF Suc.prems(6)] lt by auto
qed

lemma count_free_all:
  assumes "\<forall>k<unat (nframes p). get_state p (of_nat k) = Free"
  shows "count_free p = unat (nframes p)"
proof -
  have "filter (\<lambda>k. get_state p (of_nat k) = Free) [0..<unat (nframes p)] = [0..<unat (nframes p)]"
    using assms by (intro filter_True) simp
  then show ?thesis by (simp add: count_free_def)
qed

section \<open>The scenario pool through allocation and release\<close>

lemma set_state_Free_zero:
  assumes "bitmap q = (\<lambda>_. 0)"
  shows "set_state q i Free = q"
proof -
  have "(\<lambda>_. 0 :: u8)(k := 0) = (\<lambda>_. 0)" for k :: nat
    by (simp add: fun_eq_iff)
  then have "set_state q i Free = q\<lparr>bitmap := bitmap q\<rparr>"
    by (simp add: set_state_def Let_def assms)
  then show ?thesis by simp
qed

lemma fold_set_state_Free_zero:
  assumes "bitmap q = (\<lambda>_. 0)"
  shows "fold (\<lambda>fno q. set_state q (of_nat fno) Free) ks q = q"
  using assms by (induction ks) (simp_all add: set_state_Free_zero)

lemma ContFramePool_scenario:
  "ContFramePool \<lparr>frame_pools = []\<rparr> (\<lambda>_. 0) 100 16 99 = Inr \<lparr>frame_pools = [scenario_pool]\<rparr>"
  by (simp add: ContFramePool_def Let_def frame_size_bound fold_set_state_Free_zero
      scenario_pool_def)

text \<open>The scenario pool after \<open>get_frames(4)\<close>.\<close>

lemma scenario_allocated:
  "fst (get_frames scenario_pool 4) = 100"
  "nFreeFrames (snd (get_frames scenario_pool 4)) = 12"
  "nframes (snd (get_frames scenario_pool 4)) = 16"
  "base_frame_no (snd (get_frames scenario_pool 4)) = 100"
  "j < 2 ^ 34 \<Longrightarrow> get_state (snd (get_frames scenario_pool 4)) (of_nat j) =
     (if j = 0 then HoS else if j < 4 then Used else Free)"
proof -
  have eq: "get_frames scenario_pool 4 = get_frames_commit scenario_pool 4 0"
    by (rule get_frames_scenario_pool) simp_all
  have le: "0 + unat (4 :: u32) \<le> 2 ^ 31" by simp
  note r = get_frames_commit_result [OF le, where p = scenario_pool]
  show "fst (get_frames scenario_pool 4) = 100"
    "nFreeFrames (snd (get_frames scenario_pool 4)) = 12"
    "nframes (snd (get_frames scenario_pool 4)) = 16"
    "base_frame_no (snd (get_frames scenario_pool 4)) = 100"
    using r(1-4) by (simp_all add: eq)
  show "get_state (snd (get_frames scenario_pool 4)) (of_nat j) =
     (if j = 0 then HoS else if j < 4 then Used else Free)" if "j < 2 ^ 34"
    using r(6) [OF that] by (simp add: eq)
qed

lemma scenario_released:
  "\<exists>p''. release_frames \<lparr>frame_pools = [snd (get_frames scenario_pool 4)]\<rparr> 100
            = Inr \<lparr>frame_pools = [p'']\<rparr> \<and>
          nFreeFrames p'' = 12 \<and> nframes p'' = 16 \<and>
          (\<forall>j<2 ^ 34. get_state p'' (of_nat j) = Free)"
proof -
  let ?pa = "snd (get_frames scenario_pool 4)"
  let ?q = "set_state ?pa 0 Free"
  have st: "get_state ?pa (of_nat j) = (if j = 0 then HoS else if j < 4 then Used else Free)"
    if "j < 2 ^ 34" for j
    using that by (rule scenario_allocated(5))
  have own: "owns ?pa 100"
    by (simp add: owns_def scenario_allocated)
  have hos: "get_state ?pa (100 - base_frame_no ?pa) = HoS"
    using st [of 0] by (simp add: scenario_allocated)
  have rp: "release_pool ?pa 100 = Inr (release_loop ?q 1)"
    using release_pool_Inr [OF hos] by (simp add: scenario_allocated)
  have q: "get_state ?q (of_nat j) = (if j = 0 then Free else if j < 4 then Used else Free)"
    if "j < 2 ^ 34" for j
    using get_state_set_state_nat [of 0 j ?pa Free] st [OF that] that by simp
  have fin: "get_state (release_loop ?q 1) (of_nat j) = Free" if "j < 2 ^ 34" for j
  proof -
    have "get_state (release_loop ?q (of_nat 1)) (of_nat j) =
            (if 1 \<le> j \<and> j < 4 then Free else get_state ?q (of_nat j))"
    proof (rule release_loop_states [where e = 4])
      show "unat (nframes ?q) \<le> 2 ^ 31" by (simp add: scenario_allocated)
      show "(1::nat) \<le> 4" by simp
      show "4 \<le> unat (nframes ?q)" by (simp add: scenario_allocated)
      show "\<forall>k. 1 \<le> k \<and> k < 4 \<longrightarrow> get_state ?q (of_nat k) = Used"
        by (auto simp: q)
      show "4 = unat (nframes ?q) \<or> get_state ?q (of_nat 4) \<noteq> Used"
        using q [of 4] by simp
      show "j < 2 ^ 34" by (rule that)
    qed
    then show ?thesis using q [OF that] by auto
  qed
  have "release_frames \<lparr>frame_pools = [?pa]\<rparr> 100
          = Inr \<lparr>frame_pools = [release_loop ?q 1]\<rparr>"
    by (simp add: release_frames_def own rp)
  moreover have "nFreeFrames (release_loop ?q 1) = 12"
    "nframes (release_loop ?q 1) = 16"
    by (simp_all add: scenario_allocated)
  ultimately show ?thesis using fin by blast
qed

lemma scenario_marked:
  "j < 2 ^ 34 \<Longrightarrow> get_state (mark_inaccessible scenario_pool 110 3) (of_nat j) =
     (if j = 10 then HoS else if 10 < j \<and> j < 13 then Used else Free)"
  using mark_inaccessible_states [of 10 110 scenario_pool 3 j] by simp

section \<open>The pattern 11 through the operations\<close>

lemma state_code_ne3: "state_code st \<noteq> 3"
  by (cases st) simp_all

lemma state_bits_set_state_ne3:
  "state_bits p j \<noteq> 3 \<Longrightarrow> state_bits (set_state p i st) j \<noteq> 3"
  by (simp add: state_bits_set_state state_code_ne3)

lemma state_bits_nFreeFrames_update [simp]:
  "state_bits (p\<lparr>nFreeFrames := x\<rparr>) j = state_bits p j"
  by (simp add: state_bits_def)

lemma state_bits_fold_ne3:
  "state_bits p j \<noteq> 3 \<Longrightarrow>
     state_bits (fold (\<lambda>i q. set_state q (of_nat i) st) ks p) j \<noteq> 3"
  by (induction ks arbitrary: p) (simp_all add: state_bits_set_state_ne3)

lemma state_bits_fold_written:
  "k \<in> set ks \<Longrightarrow>
     state_bits (fold (\<lambda>i q. set_state q (of_nat i) st) ks p) (of_nat k) \<noteq> 3"
proof (induction ks arbitrary: p)
  case Nil
  then show ?case by simp
next
  case (Cons a ks)
  show ?case
  proof (cases "k = a")
    case True
    have "state_bits (set_state p (of_nat a) st) (of_nat a) \<noteq> 3"
      by (simp add: state_bits_set_state state_code_ne3)
    then show ?thesis using True
      by (simp add: state_bits_fold_ne3)
  next
    case False
    with Cons.prems have "k \<in> set ks" by simp
    then show ?thesis by (simp add: Cons.IH)
  qed
qed

lemma get_frames_loop_cases:
  "get_frames_loop p n fno hos ff = (0, p) \<or>
   (\<exists>c. get_frames_loop p n fno hos ff = get_frames_commit p n c)"
proof (induction p n fno hos ff rule: get_frames_loop.induct)
  case (1 p n fno hos ff)
  show ?case
  proof (cases "fno < unat (nframes p)")
    case False
    then show ?thesis by (subst get_frames_loop.simps) simp
  next
    case lt: True
    show ?thesis
    proof (cases "get_state p (of_nat fno) = Free")
      case False
      have "get_frames_loop p n fno hos ff = get_frames_loop p n (fno + 1) (fno + 1) 0"
        using lt False by (subst get_frames_loop.simps) simp
      with "1.IH"(2) [OF lt False] show ?thesis by simp
    next
      case free: True
      show ?thesis
      proof (cases "(of_nat (ff + 1) :: u32) = n")
        case True
        have "get_frames_loop p n fno hos ff = get_frames_commit p n hos"
          using lt free True by (subst get_frames_loop.simps) simp
        then show ?thesis by blast
      next
        case False
        have "get_frames_loop p n fno hos ff = get_frames_loop p n (fno + 1) hos (ff + 1)"
          using lt free False by (subst get_frames_loop.simps) simp
        with "1.IH"(1) [OF lt free False] show ?thesis by simp
      qed
    qed
  qed
qed

lemma state_bits_get_frames_ne3:
  assumes "state_bits p j \<noteq> 3"
  shows "state_bits (snd (get_frames p n)) j \<noteq> 3"
proof -
  have "state_bits (snd (get_frames_commit p n c)) j \<noteq> 3" for c
    using assms
    by (simp add: get_frames_commit_def Let_def state_bits_fold_ne3 state_bits_set_state_ne3)
  with get_frames_loop_cases [of p n 0 0 0] assms show ?thesis
    by (auto simp: get_frames_def)
qed

lemma state_bits_mark_inaccessible_ne3:
  assumes "state_bits p j \<noteq> 3"
  shows "state_bits (mark_inaccessible p b n) j \<noteq> 3"
  using assms
  by (simp add: mark_inaccessible_def Let_def state_bits_fold_ne3 state_bits_set_state_ne3)

lemma state_bits_release_loop_ne3:
  "state_bits p j \<noteq> 3 \<Longrightarrow> state_bits (release_loop p i) j \<noteq> 3"
proof (induction p i rule: release_loop.induct)
  case (1 p frame_ind)
  show ?case
  proof (cases "frame_ind < nframes p \<and> get_state p frame_ind = Used")
    case True
    from "1.prems" have "state_bits (set_state p frame_ind Free) j \<noteq> 3"
      by (rule state_bits_set_state_ne3)
    from "1.IH" [OF True this] show ?thesis
      by (simp add: release_loop_step [OF True])
  next
    case False
    with "1.prems" show ?thesis
      by (simp add: release_loop_stop)
  qed
qed

lemma state_bits_release_pool_ne3:
  assumes "state_bits p j \<noteq> 3" "release_pool p first = Inr p'"
  shows "state_bits p' j \<noteq> 3"
proof -
  from assms(2) have "p' = release_loop (set_state p (first - base_frame_no p) Free)
                          (first - base_frame_no p + 1)"
    by (simp add: release_pool_def Let_def split: if_splits)
  with assms(1) show ?thesis
    by (simp add: state_bits_release_loop_ne3 state_bits_set_state_ne3)
qed

lemma state_bits_ContFramePool_ne3:
  assumes "ContFramePool r mem base n info = Inr r'" "k < unat n"
  shows "state_bits (last (frame_pools r')) (of_nat k) \<noteq> 3"
proof -
  let ?p0 = "\<lparr>base_frame_no = base, nframes = n, nFreeFrames = n,
                  info_frame_no = info, bitmap = mem\<rparr>"
  let ?p1 = "fold (\<lambda>fno q. set_state q (of_nat fno) Free) [0..<unat n] ?p0"
  have p1: "state_bits ?p1 (of_nat k) \<noteq> 3"
    using assms(2) by (intro state_bits_fold_written) simp
  then have "state_bits (set_state ?p1 0 Used) (of_nat k) \<noteq> 3"
    by (rule state_bits_set_state_ne3)
  with p1 assms(1) show ?thesis
    by (auto simp: ContFramePool_def Let_def split: if_splits)
qed

section \<open>The claims\<close>

text \<open>
  C1. The invariant \<open>nFreeFrames = count of Free slots\<close> does not survive
  \<open>release_frames\<close> or \<open>mark_inaccessible\<close>: neither assigns \<open>nFreeFrames\<close>.
  On the pool the constructor builds for \<open>(100, 16, 99)\<close>, \<open>get_frames(4)\<close>
  followed by \<open>release_frames(100)\<close> ends with 16 \<open>Free\<close> slots and a counter
  of 12, and \<open>mark_inaccessible(110, 3)\<close> ends with 13 \<open>Free\<close> slots and a counter
  of 16.
\<close>

theorem n_free_not_count_of_free:
  "ContFramePool \<lparr>frame_pools = []\<rparr> (\<lambda>_. 0) 100 16 99 = Inr \<lparr>frame_pools = [scenario_pool]\<rparr>
   \<and> fst (get_frames scenario_pool 4) = 100
   \<and> (\<exists>p''. release_frames \<lparr>frame_pools = [snd (get_frames scenario_pool 4)]\<rparr> 100
               = Inr \<lparr>frame_pools = [p'']\<rparr>
             \<and> count_free p'' = 16 \<and> nFreeFrames p'' = 12)
   \<and> count_free (mark_inaccessible scenario_pool 110 3) = 13
   \<and> nFreeFrames (mark_inaccessible scenario_pool 110 3) = 16"
proof -
  from scenario_released obtain p'' where
    rel: "release_frames \<lparr>frame_pools = [snd (get_frames scenario_pool 4)]\<rparr> 100
            = Inr \<lparr>frame_pools = [p'']\<rparr>"
    and nf: "nFreeFrames p'' = 12" and n: "nframes p'' = 16"
    and fr: "\<forall>j<2 ^ 34. get_state p'' (of_nat j) = Free"
    by blast
  have "count_free p'' = unat (nframes p'')"
    using fr n by (intro count_free_all) simp
  then have c1: "count_free p'' = 16" using n by simp
  let ?m = "mark_inaccessible scenario_pool 110 3"
  have "filter (\<lambda>k. get_state ?m (of_nat k) = Free) [0..<16]
          = filter (\<lambda>k. k < 10 \<or> 13 \<le> k) [0..<16]"
    by (rule filter_cong) (auto simp: scenario_marked)
  also have "length \<dots> = 13"
    by (simp add: upt_rec)
  finally have c2: "count_free ?m = 13"
    by (simp add: count_free_def)
  from rel c1 nf c2 show ?thesis
    by (auto simp: ContFramePool_scenario scenario_allocated)
qed

text \<open>
  C2. \<open>get_frames\<close> followed by \<open>release_frames\<close> of the frame it returned does not
  restore \<open>nFreeFrames\<close>: \<open>release_frames\<close> frees the run in the bitmap and never
  adds to the counter. On the scenario pool, \<open>get_frames(4)\<close> returns 100 and
  \<open>release_frames(100)\<close> leaves all 16 slots \<open>Free\<close> as before, with the counter
  at 12 where it was 16.
\<close>

theorem get_release_keeps_decrement:
  "nFreeFrames scenario_pool = 16
   \<and> fst (get_frames scenario_pool 4) = 100
   \<and> (\<exists>p''. release_frames \<lparr>frame_pools = [snd (get_frames scenario_pool 4)]\<rparr>
                (fst (get_frames scenario_pool 4)) = Inr \<lparr>frame_pools = [p'']\<rparr>
             \<and> list_all (\<lambda>k. get_state p'' (of_nat k) = get_state scenario_pool (of_nat k))
                   [0..<16]
             \<and> nFreeFrames p'' = 12
             \<and> nFreeFrames p'' \<noteq> nFreeFrames scenario_pool)"
proof -
  from scenario_released obtain p'' where
    rel: "release_frames \<lparr>frame_pools = [snd (get_frames scenario_pool 4)]\<rparr> 100
            = Inr \<lparr>frame_pools = [p'']\<rparr>"
    and nf: "nFreeFrames p'' = 12"
    and fr: "\<forall>j<2 ^ 34. get_state p'' (of_nat j) = Free"
    by blast
  have "list_all (\<lambda>k. get_state p'' (of_nat k) = get_state scenario_pool (of_nat k)) [0..<16]"
    using fr by (simp add: list_all_iff)
  with rel nf show ?thesis
    by (auto simp: scenario_allocated)
qed

text \<open>
  C3. The constructor of a self-hosted pool (\<open>info_frame_no = 0\<close>) does not leave
  frame index 0 as \<open>HoS\<close>: line 208 writes \<open>Used\<close>. For \<open>(200, 8, 0)\<close> over zeroed
  storage the new pool reads \<open>Used\<close> at index 0, \<open>Free\<close> at indices 1 to 7, and
  its \<open>nFreeFrames\<close> is 7. The file's header reserves \<open>Used\<close> for frames that are
  not first in a sequence, and \<open>get_frames\<close> and \<open>mark_inaccessible\<close> mark the head
  of a run \<open>HoS\<close>; the constructor alone leaves a \<open>Used\<close> frame with no \<open>HoS\<close>
  before it.
\<close>

theorem self_hosted_slot0_Used:
  "\<exists>p. ContFramePool \<lparr>frame_pools = []\<rparr> (\<lambda>_. 0) 200 8 0 = Inr \<lparr>frame_pools = [p]\<rparr> \<and>
       get_state p 0 = Used \<and> get_state p 0 \<noteq> HoS \<and>
       list_all (\<lambda>k. get_state p (of_nat k) = Free) [1..<8] \<and>
       nFreeFrames p = 7 \<and> nframes p = 8 \<and> base_frame_no p = 200 \<and> info_frame_no p = 0"
proof -
  have "unat (8 :: u64) \<le> FRAME_SIZE * 4"
    by (simp add: frame_size_bound)
  from ContFramePool_result [OF this, of "\<lparr>frame_pools = []\<rparr>" "\<lambda>_. 0" 200 0]
  obtain p where p: "ContFramePool \<lparr>frame_pools = []\<rparr> (\<lambda>_. 0) 200 8 0
      = Inr \<lparr>frame_pools = [p]\<rparr>"
    "nFreeFrames p = 7" "nframes p = 8" "base_frame_no p = 200" "info_frame_no p = 0"
    and st: "\<forall>k<unat (8 :: u64). get_state p (of_nat k) = (if k = 0 then Used else Free)"
    by auto
  from st [rule_format, of 0] have s0: "get_state p 0 = Used" by simp
  from st have "list_all (\<lambda>k. get_state p (of_nat k) = Free) [1..<8]"
    by (simp add: list_all_iff)
  with p s0 show ?thesis by auto
qed

text \<open>
  C4. \<open>mark_inaccessible\<close> writes the bitmap as the claim says and leaves
  \<open>nFreeFrames\<close> as it was: on the scenario pool, \<open>mark_inaccessible(110, 3)\<close> over
  three \<open>Free\<close> frames inside the pool makes index 10 \<open>HoS\<close> and indices 11 and 12
  \<open>Used\<close>, and the counter is still 16, not 13.
\<close>

theorem mark_inaccessible_keeps_nFreeFrames:
  "free_run scenario_pool 10 3
   \<and> get_state (mark_inaccessible scenario_pool 110 3) 10 = HoS
   \<and> get_state (mark_inaccessible scenario_pool 110 3) 11 = Used
   \<and> get_state (mark_inaccessible scenario_pool 110 3) 12 = Used
   \<and> nFreeFrames scenario_pool = 16
   \<and> nFreeFrames (mark_inaccessible scenario_pool 110 3) = 16
   \<and> nFreeFrames (mark_inaccessible scenario_pool 110 3) \<noteq> nFreeFrames scenario_pool - 3"
  using scenario_marked [of 10] scenario_marked [of 11] scenario_marked [of 12]
  by (simp add: free_run_scenario_pool)

text \<open>
  C5. For a pool within the constructor's size bound and a request \<open>n \<ge> 1\<close>:
  if some run of \<open>n\<close> contiguous \<open>Free\<close> frames exists, \<open>get_frames\<close> returns
  \<open>base_frame_no + c\<close> for the lowest start \<open>c\<close> of such a run, leaves index \<open>c\<close>
  as \<open>HoS\<close> and indices \<open>c+1 .. c+n-1\<close> as \<open>Used\<close>, keeps every other frame of the
  pool, and subtracts \<open>n\<close> from \<open>nFreeFrames\<close>; if no run exists it returns 0 and
  the pool is unchanged.
\<close>

theorem get_frames_first_fit:
  assumes "unat (nframes p) \<le> FRAME_SIZE * 4" and "n \<noteq> 0"
  shows "((\<exists>c. free_run p c (unat n)) \<longrightarrow>
           (\<exists>c. free_run p c (unat n) \<and> (\<forall>c'<c. \<not> free_run p c' (unat n)) \<and>
              (case get_frames p n of (h, p') \<Rightarrow>
                 h = base_frame_no p + of_nat c \<and>
                 get_state p' (of_nat c) = HoS \<and>
                 (\<forall>k. c < k \<and> k < c + unat n \<longrightarrow> get_state p' (of_nat k) = Used) \<and>
                 (\<forall>k. k < unat (nframes p) \<and> \<not> (c \<le> k \<and> k < c + unat n) \<longrightarrow>
                    get_state p' (of_nat k) = get_state p (of_nat k)) \<and>
                 nFreeFrames p' = nFreeFrames p - ucast n \<and>
                 nframes p' = nframes p \<and> base_frame_no p' = base_frame_no p \<and>
                 info_frame_no p' = info_frame_no p)))
       \<and> ((\<forall>c. \<not> free_run p c (unat n)) \<longrightarrow> get_frames p n = (0, p))"
proof -
  have N: "unat (nframes p) \<le> 16384"
    using assms(1) by (simp add: frame_size_bound)
  have pos: "0 < unat n"
    using assms(2) by (simp add: unat_gt_0)
  have scan: "(\<exists>c. free_run p c (unat n) \<and> (\<forall>c'<c. \<not> free_run p c' (unat n)) \<and>
              get_frames p n = get_frames_commit p n c)
         \<or> ((\<forall>c. \<not> free_run p c (unat n)) \<and> get_frames p n = (0, p))"
    unfolding get_frames_def
  proof (rule get_frames_loop_scan)
    show "unat (nframes p) < 2 ^ 32" using N by simp
    show "0 \<le> unat (nframes p)" by simp
    show "(0::nat) + 0 = 0" by simp
    show "0 < unat n" by (rule pos)
    show "\<forall>k. 0 \<le> k \<and> k < 0 \<longrightarrow> get_state p (of_nat k) = Free" by simp
    show "\<forall>c<0. \<not> free_run p c (unat n)" by simp
  qed
  have commit: "case get_frames_commit p n c of (h, p') \<Rightarrow>
                 h = base_frame_no p + of_nat c \<and>
                 get_state p' (of_nat c) = HoS \<and>
                 (\<forall>k. c < k \<and> k < c + unat n \<longrightarrow> get_state p' (of_nat k) = Used) \<and>
                 (\<forall>k. k < unat (nframes p) \<and> \<not> (c \<le> k \<and> k < c + unat n) \<longrightarrow>
                    get_state p' (of_nat k) = get_state p (of_nat k)) \<and>
                 nFreeFrames p' = nFreeFrames p - ucast n \<and>
                 nframes p' = nframes p \<and> base_frame_no p' = base_frame_no p \<and>
                 info_frame_no p' = info_frame_no p"
    if run: "free_run p c (unat n)" for c
  proof -
    from run N have le: "c + unat n \<le> 2 ^ 31"
      by (simp add: free_run_iff)
    from run N have small: "k < c + unat n \<Longrightarrow> k < 2 ^ 34" for k
      by (simp add: free_run_iff)
    from N have small': "k < unat (nframes p) \<Longrightarrow> k < 2 ^ 34" for k
      by simp
    note r = get_frames_commit_result [OF le, where p = p]
    have "c < c + unat n" using pos by simp
    then have "c < 2 ^ 34" by (rule small)
    then have "get_state (snd (get_frames_commit p n c)) (of_nat c) = HoS"
      by (subst r(6)) simp_all
    moreover have "\<forall>k. c < k \<and> k < c + unat n \<longrightarrow>
        get_state (snd (get_frames_commit p n c)) (of_nat k) = Used"
    proof (intro allI impI)
      fix k assume k: "c < k \<and> k < c + unat n"
      then have "k < 2 ^ 34" using small by blast
      then show "get_state (snd (get_frames_commit p n c)) (of_nat k) = Used"
        using k by (subst r(6)) simp_all
    qed
    moreover have "\<forall>k. k < unat (nframes p) \<and> \<not> (c \<le> k \<and> k < c + unat n) \<longrightarrow>
        get_state (snd (get_frames_commit p n c)) (of_nat k) = get_state p (of_nat k)"
    proof (intro allI impI)
      fix k assume k: "k < unat (nframes p) \<and> \<not> (c \<le> k \<and> k < c + unat n)"
      then have "k < 2 ^ 34" using small' by blast
      then show "get_state (snd (get_frames_commit p n c)) (of_nat k) = get_state p (of_nat k)"
        using k pos by (subst r(6)) auto
    qed
    ultimately show ?thesis
      using r(1-5) by (simp add: case_prod_unfold)
  qed
  show ?thesis
  proof (intro conjI impI)
    assume "\<exists>c. free_run p c (unat n)"
    with scan obtain c where c: "free_run p c (unat n)" "\<forall>c'<c. \<not> free_run p c' (unat n)"
      "get_frames p n = get_frames_commit p n c"
      by blast
    from commit [OF c(1)] c show "\<exists>c. free_run p c (unat n) \<and> (\<forall>c'<c. \<not> free_run p c' (unat n)) \<and>
              (case get_frames p n of (h, p') \<Rightarrow>
                 h = base_frame_no p + of_nat c \<and>
                 get_state p' (of_nat c) = HoS \<and>
                 (\<forall>k. c < k \<and> k < c + unat n \<longrightarrow> get_state p' (of_nat k) = Used) \<and>
                 (\<forall>k. k < unat (nframes p) \<and> \<not> (c \<le> k \<and> k < c + unat n) \<longrightarrow>
                    get_state p' (of_nat k) = get_state p (of_nat k)) \<and>
                 nFreeFrames p' = nFreeFrames p - ucast n \<and>
                 nframes p' = nframes p \<and> base_frame_no p' = base_frame_no p \<and>
                 info_frame_no p' = info_frame_no p)"
      by (intro exI [of _ c]) simp
  next
    assume "\<forall>c. \<not> free_run p c (unat n)"
    with scan show "get_frames p n = (0, p)" by blast
  qed
qed

theorem get_frames_first_fit_witness:
  "free_run scenario_pool 0 4
   \<and> fst (get_frames scenario_pool 4) = 100
   \<and> get_state (snd (get_frames scenario_pool 4)) 0 = HoS
   \<and> nFreeFrames (snd (get_frames scenario_pool 4)) = 12
   \<and> get_frames scenario_pool 17 = (0, scenario_pool)"
proof -
  have h1: "unat (nframes scenario_pool) \<le> FRAME_SIZE * 4"
    by (simp add: frame_size_bound)
  have h2: "(4::u32) \<noteq> 0" "(17::u32) \<noteq> 0"
    by simp_all
  have run: "free_run scenario_pool 0 (unat (4::u32))"
    by (simp add: free_run_scenario_pool)
  have norun: "\<forall>c. \<not> free_run scenario_pool c (unat (17::u32))"
    by (simp add: free_run_scenario_pool)
  from get_frames_first_fit [OF h1 h2(1)] run
  obtain c where c: "\<forall>c'<c. \<not> free_run scenario_pool c' (unat (4::u32))"
    and res: "case get_frames scenario_pool 4 of (h, p') \<Rightarrow>
                 h = base_frame_no scenario_pool + of_nat c \<and>
                 get_state p' (of_nat c) = HoS \<and>
                 nFreeFrames p' = nFreeFrames scenario_pool - ucast (4::u32)"
    by (auto simp: case_prod_unfold)
  have "c = 0"
  proof (rule ccontr)
    assume "c \<noteq> 0"
    then have "0 < c" by simp
    with c run show False by blast
  qed
  with res have "fst (get_frames scenario_pool 4) = 100"
    "get_state (snd (get_frames scenario_pool 4)) 0 = HoS"
    "nFreeFrames (snd (get_frames scenario_pool 4)) = 12"
    by (simp_all add: case_prod_unfold)
  moreover from get_frames_first_fit [OF h1 h2(2)] norun
  have "get_frames scenario_pool 17 = (0, scenario_pool)"
    by blast
  moreover from run have "free_run scenario_pool 0 4" by simp
  ultimately show ?thesis by blast
qed

text \<open>
  C6. The constructor stores the new pool at \<open>frame_pools[n_frame_pools]\<close> with no
  test against the table's 100 slots: with 100 pools registered it returns
  normally and the registry holds 101.
\<close>

theorem registry_append_unchecked:
  "n_frame_pools \<lparr>frame_pools = replicate 100 scenario_pool\<rparr> = frame_pools_capacity
   \<and> (\<exists>p. ContFramePool \<lparr>frame_pools = replicate 100 scenario_pool\<rparr> (\<lambda>_. 0) 100 16 99
            = Inr \<lparr>frame_pools = replicate 100 scenario_pool @ [p]\<rparr>
          \<and> n_frame_pools \<lparr>frame_pools = replicate 100 scenario_pool @ [p]\<rparr> = 101
          \<and> frame_pools_capacity
               < n_frame_pools \<lparr>frame_pools = replicate 100 scenario_pool @ [p]\<rparr>)"
proof -
  have "unat (16 :: u64) \<le> FRAME_SIZE * 4"
    by (simp add: frame_size_bound)
  from ContFramePool_result [OF this, of "\<lparr>frame_pools = replicate 100 scenario_pool\<rparr>"
      "\<lambda>_. 0" 100 99]
  obtain p where "ContFramePool \<lparr>frame_pools = replicate 100 scenario_pool\<rparr> (\<lambda>_. 0) 100 16 99
            = Inr \<lparr>frame_pools = replicate 100 scenario_pool @ [p]\<rparr>"
    by auto
  then show ?thesis
    by (auto simp: n_frame_pools_def frame_pools_capacity_def)
qed

text \<open>
  C7. When the first pool of the registry that owns \<open>first\<close> is the one at index
  \<open>k\<close>, \<open>release_frames(first)\<close> stops in the assertion exactly when the state of
  that pool at \<open>first - base_frame_no\<close> is not \<open>HoS\<close>, and returns exactly when it
  is \<open>HoS\<close>.
\<close>

theorem release_frames_assertion:
  assumes "k < length (frame_pools r)"
    and "owns (frame_pools r ! k) first"
    and "\<forall>m<k. \<not> owns (frame_pools r ! m) first"
  shows "(release_frames r first = Inl AssertionFailed \<longleftrightarrow>
            get_state (frame_pools r ! k) (first - base_frame_no (frame_pools r ! k)) \<noteq> HoS)
       \<and> ((\<exists>r'. release_frames r first = Inr r') \<longleftrightarrow>
            get_state (frame_pools r ! k) (first - base_frame_no (frame_pools r ! k)) = HoS)"
proof -
  have fp: "find_pool (frame_pools r) first 0 = Some k"
    using find_pool_first [OF assms, of 0] by simp
  show ?thesis
  proof (cases "get_state (frame_pools r ! k) (first - base_frame_no (frame_pools r ! k)) = HoS")
    case True
    then show ?thesis
      by (simp add: release_frames_def fp release_pool_Inr)
  next
    case False
    then have "release_pool (frame_pools r ! k) first = Inl AssertionFailed"
      by (simp add: release_pool_assert_iff)
    with False show ?thesis
      by (simp add: release_frames_def fp)
  qed
qed

theorem release_frames_assertion_witness:
  "release_frames \<lparr>frame_pools = [snd (get_frames scenario_pool 4)]\<rparr> 101 = Inl AssertionFailed
   \<and> get_state (snd (get_frames scenario_pool 4)) 1 = Used
   \<and> (\<exists>r'. release_frames \<lparr>frame_pools = [snd (get_frames scenario_pool 4)]\<rparr> 100 = Inr r')
   \<and> get_state (snd (get_frames scenario_pool 4)) 0 = HoS"
proof -
  let ?pa = "snd (get_frames scenario_pool 4)"
  let ?r = "\<lparr>frame_pools = [?pa]\<rparr>"
  have k: "0 < length (frame_pools ?r)" by simp
  have none: "\<forall>m<0. \<not> owns (frame_pools ?r ! m) first" for first by simp
  have o0: "owns (frame_pools ?r ! 0) 100" and o1: "owns (frame_pools ?r ! 0) 101"
    by (simp_all add: owns_def scenario_allocated)
  have s0: "get_state ?pa 0 = HoS" and s1: "get_state ?pa 1 = Used"
    using scenario_allocated(5) [of 0] scenario_allocated(5) [of 1] by simp_all
  from release_frames_assertion [OF k o1 none] s1
  have "release_frames ?r 101 = Inl AssertionFailed"
    by (simp add: scenario_allocated)
  moreover from release_frames_assertion [OF k o0 none] s0
  have "\<exists>r'. release_frames ?r 100 = Inr r'"
    by (simp add: scenario_allocated)
  ultimately show ?thesis using s0 s1 by blast
qed

text \<open>
  C8. When no pool of the registry owns \<open>first\<close>, \<open>release_frames(first)\<close> returns
  without an assertion and the registry, with every pool's bitmap and counter, is
  what it was.
\<close>

theorem release_frames_unknown_frame:
  assumes "\<forall>p \<in> set (frame_pools r). \<not> owns p first"
  shows "release_frames r first = Inr r"
  using assms by (simp add: release_frames_def find_pool_None_iff [THEN iffD2])

theorem release_frames_unknown_frame_witness:
  "\<not> owns scenario_pool 116 \<and> \<not> owns scenario_pool 99
   \<and> release_frames \<lparr>frame_pools = [scenario_pool]\<rparr> 116 = Inr \<lparr>frame_pools = [scenario_pool]\<rparr>
   \<and> release_frames \<lparr>frame_pools = [scenario_pool]\<rparr> 99 = Inr \<lparr>frame_pools = [scenario_pool]\<rparr>"
proof -
  have h: "\<forall>p \<in> set (frame_pools \<lparr>frame_pools = [scenario_pool]\<rparr>). \<not> owns p 116"
    "\<forall>p \<in> set (frame_pools \<lparr>frame_pools = [scenario_pool]\<rparr>). \<not> owns p 99"
    by (simp_all add: owns_def)
  from release_frames_unknown_frame [OF h(1)] release_frames_unknown_frame [OF h(2)] h
  show ?thesis by simp
qed

text \<open>
  C9. The codec keeps the encoding \<open>Free = 00\<close>, \<open>Used = 01\<close>, \<open>HoS = 10\<close>: after
  \<open>set_state\<close> the slot addressed holds the code of the state written, which is
  never \<open>11\<close>, and every other slot holds the bits it held before. So a slot that
  does not hold \<open>11\<close> does not hold it after \<open>set_state\<close>, \<open>get_frames\<close>,
  \<open>mark_inaccessible\<close> or a release, and no slot of a pool holds \<open>11\<close> when the
  constructor returns. \<open>get_state\<close> decodes the slot's two bits, and decodes \<open>11\<close>
  as \<open>Free\<close>.
\<close>

theorem codec_encoding:
  "state_bits (set_state p i st) j =
     (if bitmap_index j = bitmap_index i \<and> shift_of j = shift_of i
      then state_code st else state_bits p j)
   \<and> state_bits (set_state p i st) i = state_code st
   \<and> state_code st \<noteq> 3
   \<and> state_code Free = 0 \<and> state_code Used = 1 \<and> state_code HoS = 2
   \<and> (state_bits p j \<noteq> 3 \<longrightarrow>
         state_bits (set_state p i st) j \<noteq> 3 \<and>
         state_bits (snd (get_frames p n)) j \<noteq> 3 \<and>
         state_bits (mark_inaccessible p b m) j \<noteq> 3 \<and>
         (\<forall>p'. release_pool p first = Inr p' \<longrightarrow> state_bits p' j \<noteq> 3))
   \<and> (\<forall>r'. ContFramePool r mem base nf info = Inr r' \<longrightarrow>
         (\<forall>k<unat nf. state_bits (last (frame_pools r')) (of_nat k) \<noteq> 3))
   \<and> get_state p j = decode_state (state_bits p j)
   \<and> decode_state 0 = Free \<and> decode_state 1 = Used \<and> decode_state 2 = HoS
   \<and> decode_state 3 = Free"
proof -
  have "state_bits (set_state p i st) j =
     (if bitmap_index j = bitmap_index i \<and> shift_of j = shift_of i
      then state_code st else state_bits p j)"
    by (rule state_bits_set_state)
  moreover have "state_bits (set_state p i st) i = state_code st"
    by (simp add: state_bits_set_state)
  moreover have "state_bits p j \<noteq> 3 \<longrightarrow>
         state_bits (set_state p i st) j \<noteq> 3 \<and>
         state_bits (snd (get_frames p n)) j \<noteq> 3 \<and>
         state_bits (mark_inaccessible p b m) j \<noteq> 3 \<and>
         (\<forall>p'. release_pool p first = Inr p' \<longrightarrow> state_bits p' j \<noteq> 3)"
    using state_bits_set_state_ne3 state_bits_get_frames_ne3
      state_bits_mark_inaccessible_ne3 state_bits_release_pool_ne3
    by blast
  moreover have "\<forall>r'. ContFramePool r mem base nf info = Inr r' \<longrightarrow>
         (\<forall>k<unat nf. state_bits (last (frame_pools r')) (of_nat k) \<noteq> 3)"
    using state_bits_ContFramePool_ne3 by blast
  moreover have "get_state p j = decode_state (state_bits p j)"
    by (simp add: get_state_def)
  moreover have "decode_state 0 = Free \<and> decode_state 1 = Used \<and> decode_state 2 = HoS
      \<and> decode_state 3 = Free"
    by (simp add: decode_state_def)
  ultimately show ?thesis
    using state_code_ne3 [of st] by simp
qed

theorem codec_encoding_witness:
  "state_bits scenario_pool 5 \<noteq> 3
   \<and> state_bits (set_state scenario_pool 1 HoS) 5 \<noteq> 3
   \<and> state_bits (snd (get_frames scenario_pool 4)) 5 \<noteq> 3
   \<and> state_bits (mark_inaccessible scenario_pool 110 3) 5 \<noteq> 3
   \<and> ContFramePool \<lparr>frame_pools = []\<rparr> (\<lambda>_. 0) 100 16 99 = Inr \<lparr>frame_pools = [scenario_pool]\<rparr>
   \<and> state_bits scenario_pool 15 \<noteq> 3"
proof -
  have h: "state_bits scenario_pool 5 \<noteq> 3"
    by (simp add: state_bits_def scenario_pool_def)
  note t = codec_encoding [where p = scenario_pool and i = 1 and st = HoS and j = 5
      and n = 4 and b = 110 and m = 3 and first = 100 and r = "\<lparr>frame_pools = []\<rparr>"
      and mem = "\<lambda>_. 0" and base = 100 and nf = 16 and info = 99]
  from t h have "state_bits (set_state scenario_pool 1 HoS) 5 \<noteq> 3"
    "state_bits (snd (get_frames scenario_pool 4)) 5 \<noteq> 3"
    "state_bits (mark_inaccessible scenario_pool 110 3) 5 \<noteq> 3"
    by blast+
  moreover from t ContFramePool_scenario
  have a: "\<forall>k<unat (16 :: u64). state_bits (last (frame_pools \<lparr>frame_pools = [scenario_pool]\<rparr>))
          (of_nat k) \<noteq> 3"
    by blast
  from a [rule_format, of 15] have "state_bits scenario_pool 15 \<noteq> 3"
    by simp
  ultimately show ?thesis
    using h ContFramePool_scenario by blast
qed

text \<open>
  C10. For a pool within the constructor's size bound, \<open>get_frames(0)\<close> returns
  the sentinel 0 and leaves the pool as it was: the counter \<open>free_frames\<close> is
  compared with the request only after its increment, so it is at least 1.
\<close>

theorem get_frames_zero:
  assumes "unat (nframes p) \<le> FRAME_SIZE * 4"
  shows "get_frames p 0 = (0, p)"
  unfolding get_frames_def
  using assms by (intro get_frames_loop_zero) (simp_all add: frame_size_bound)

theorem get_frames_zero_witness:
  "unat (nframes scenario_pool) \<le> FRAME_SIZE * 4
   \<and> get_frames scenario_pool 0 = (0, scenario_pool)"
proof -
  have h: "unat (nframes scenario_pool) \<le> FRAME_SIZE * 4"
    by (simp add: frame_size_bound)
  from h get_frames_zero [OF h] show ?thesis by blast
qed

end
